theory Spec2Isabelle
  imports Complex_Main "HOL-Library.Sublist"
begin

section \<open>Strings, substring search and splitting\<close>

text \<open>
  A Go string is a sequence of bytes; it is modelled as a \<open>char list\<close>. The regular
  expressions of \<open>parseScummvmOutput\<close> only ever delimit their matches at ASCII
  bytes (white space, dashes, ASCII letters) or at the ends of the text, so matching on
  bytes and matching on UTF-8 runes give the same submatches.
\<close>

abbreviation LF :: char where "LF \<equiv> CHR 0x0A"

abbreviation CR :: char where "CR \<equiv> CHR 0x0D"

text \<open>The line terminators tried by the parser: \<open>"\n"\<close> and \<open>"\r\n"\<close>.\<close>

abbreviation eol_lf :: string where "eol_lf \<equiv> [LF]"

abbreviation eol_crlf :: string where "eol_crlf \<equiv> [CR, LF]"

text \<open>The class \<open>\s\<close> of Go's regexp syntax: tab, line feed, form feed, carriage return, space.\<close>

definition is_space :: "char \<Rightarrow> bool" where
  "is_space c \<longleftrightarrow> c = CHR 0x09 \<or> c = LF \<or> c = CHR 0x0C \<or> c = CR \<or> c = CHR '' ''"

definition is_dash :: "char \<Rightarrow> bool" where
  "is_dash c \<longleftrightarrow> c = CHR ''-''"

text \<open>\<open>strings.Contains(s, substr)\<close>: some suffix of \<open>s\<close> starts with \<open>substr\<close>.\<close>

fun contains :: "string \<Rightarrow> string \<Rightarrow> bool" where
  "contains [] sub = (sub = [])"
| "contains (c # cs) sub = (prefix sub (c # cs) \<or> contains cs sub)"

text \<open>
  \<open>strings.Split(s, sep)\<close> for a non-empty separator: the text is cut at every
  occurrence of \<open>sep\<close>, found from left to right without overlap; \<open>n\<close> occurrences give
  \<open>n + 1\<close> pieces. \<open>acc\<close> holds the piece being read. The parser only calls it with
  \<open>"\n"\<close> or \<open>"\r\n"\<close>; with an empty separator (never passed) this model returns the text
  as one piece.
\<close>

function splitOn :: "string \<Rightarrow> string \<Rightarrow> string \<Rightarrow> string list" where
  "splitOn sep acc [] = [acc]"
| "splitOn sep acc (c # cs) =
     (if sep \<noteq> [] \<and> prefix sep (c # cs)
      then acc # splitOn sep [] (drop (length sep) (c # cs))
      else splitOn sep (acc @ [c]) cs)"
  by pat_completeness auto
termination
  by (relation "measure (\<lambda>(sep, acc, s). length s)") (auto simp: neq_Nil_conv)

definition split :: "string \<Rightarrow> string \<Rightarrow> string list" where
  "split s sep = splitOn sep [] s"

section \<open>The three regular expressions\<close>

text \<open>
  The sentinel of the first check and the pattern
  \<open>GameID\s+Description\s+Full Path\<close> of the second. The pattern is not anchored:
  \<open>MatchString\<close> succeeds when it matches at some position. After \<open>\s+\<close> comes a
  letter, which is not white space, so \<open>\s+\<close> can only stand for the whole run of white
  space in front of that letter.
\<close>

definition sentinel :: string where
  "sentinel = ''WARNING: ScummVM could not find any game in''"

definition after_lit :: "string \<Rightarrow> string \<Rightarrow> string option" where
  "after_lit lit s = (if prefix lit s then Some (drop (length lit) s) else None)"

definition after_spaces :: "string \<Rightarrow> string option" where
  "after_spaces s = (case s of [] \<Rightarrow> None | c # cs \<Rightarrow> if is_space c then Some (dropWhile is_space cs) else None)"

definition header_here :: "string \<Rightarrow> bool" where
  "header_here s =
     (case after_lit ''GameID'' s of None \<Rightarrow> False | Some r1 \<Rightarrow>
      (case after_spaces r1 of None \<Rightarrow> False | Some r2 \<Rightarrow>
       (case after_lit ''Description'' r2 of None \<Rightarrow> False | Some r3 \<Rightarrow>
        (case after_spaces r3 of None \<Rightarrow> False | Some r4 \<Rightarrow>
           prefix ''Full Path'' r4))))"

fun headerMatcher :: "string \<Rightarrow> bool" where
  "headerMatcher [] = header_here []"
| "headerMatcher (c # cs) = (header_here (c # cs) \<or> headerMatcher cs)"

text \<open>
  \<open>lineMatcher\<close> is \<open>^-+\s-+\s-+$\<close>, applied to one line: without the multi-line flag
  \<open>^\<close> and \<open>$\<close> are the two ends of the line, so the whole line is a run of dashes,
  one white-space character, a run of dashes, one white-space character and a run of dashes.
\<close>

definition lineMatcher :: "string \<Rightarrow> bool" where
  "lineMatcher s =
     (takeWhile is_dash s \<noteq> [] \<and>
      (case dropWhile is_dash s of [] \<Rightarrow> False | c1 # t1 \<Rightarrow>
         is_space c1 \<and> takeWhile is_dash t1 \<noteq> [] \<and>
         (case dropWhile is_dash t1 of [] \<Rightarrow> False | c2 # t2 \<Rightarrow>
            is_space c2 \<and> t2 \<noteq> [] \<and> list_all is_dash t2)))"

text \<open>
  \<open>matcher\<close> is \<open>^(.+?)\s{2,}(.+?)\s{2,}(.+?)$\<close>. Go returns the match a backtracking
  search finds first. The search is written with continuations: \<open>lazy_dots k\<close> is
  \<open>(.+?)\<close> followed by the rest \<open>k\<close> of the pattern, trying the shortest group first
  (\<open>.\<close> is any character but line feed); \<open>greedy_spaces k\<close> is \<open>\s{2,}\<close> followed by
  \<open>k\<close>, trying the longest run first; \<open>at_end\<close> is \<open>$\<close>.
\<close>

fun lazy_dots :: "(string \<Rightarrow> 'a option) \<Rightarrow> string \<Rightarrow> string \<Rightarrow> (string \<times> 'a) option" where
  "lazy_dots k acc [] = None"
| "lazy_dots k acc (c # cs) =
     (if c = LF then None
      else (case k cs of
              Some r \<Rightarrow> Some (acc @ [c], r)
            | None \<Rightarrow> lazy_dots k (acc @ [c]) cs))"

fun greedy_spaces :: "(string \<Rightarrow> 'a option) \<Rightarrow> nat \<Rightarrow> string \<Rightarrow> 'a option" where
  "greedy_spaces k n [] = (if 2 \<le> n then k [] else None)"
| "greedy_spaces k n (c # cs) =
     (case (if is_space c then greedy_spaces k (Suc n) cs else None) of
        Some r \<Rightarrow> Some r
      | None \<Rightarrow> if 2 \<le> n then k (c # cs) else None)"

definition at_end :: "string \<Rightarrow> unit option" where
  "at_end s = (if s = [] then Some () else None)"

definition matcher :: "string \<Rightarrow> (string \<times> string \<times> string) option" where
  "matcher s =
     (case lazy_dots (greedy_spaces (lazy_dots (greedy_spaces (lazy_dots at_end []) 0) []) 0) [] s of
        None \<Rightarrow> None
      | Some (g1, g2, g3, u) \<Rightarrow> Some (g1, g2, g3))"

text \<open>
  \<open>matcher.ReplaceAllString(line, "$n")\<close>: the pattern is anchored at both ends, so it
  matches at most once and the match is the whole line, which is replaced by group \<open>n\<close>;
  a line that does not match is returned unchanged.
\<close>

definition replaceAllString :: "nat \<Rightarrow> string \<Rightarrow> string" where
  "replaceAllString n s =
     (case matcher s of
        None \<Rightarrow> s
      | Some (g1, g2, g3) \<Rightarrow> if n = 1 then g1 else if n = 2 then g2 else g3)"

section \<open>Extraction of the candidate rows\<close>

record ScummGameMatch =
  GameID :: string
  Description :: string
  Directory :: string

definition parse_row :: "string \<Rightarrow> ScummGameMatch" where
  "parse_row l =
     \<lparr>GameID = replaceAllString 1 l, Description = replaceAllString 2 l,
      Directory = replaceAllString 3 l\<rparr>"

text \<open>The inner loop: every line after the rule line, rows with an empty field skipped.\<close>

fun rows :: "string list \<Rightarrow> ScummGameMatch list" where
  "rows [] = []"
| "rows (l # ls) =
     (let m = parse_row l
      in if GameID m = [] \<or> Description m = [] \<or> Directory m = [] then rows ls
         else m # rows ls)"

text \<open>The outer loop: it stops at the first line that \<open>lineMatcher\<close> accepts.\<close>

fun table_rows :: "string list \<Rightarrow> ScummGameMatch list" where
  "table_rows [] = []"
| "table_rows (l # ls) = (if lineMatcher l then rows ls else table_rows ls)"

definition eol_of :: "string \<Rightarrow> string" where
  "eol_of out = (if contains out eol_crlf then eol_crlf else eol_lf)"

definition scummvmOutputSlice :: "string \<Rightarrow> ScummGameMatch list" where
  "scummvmOutputSlice out = table_rows (split out (eol_of out))"

section \<open>Choice of the closest match\<close>

text \<open>
  The stemmer (\<open>snowball.Stem\<close>, which returns a string or an error), \<open>filepath.Base\<close>
  and the scorer (\<open>strutil.Similarity\<close> with the configured Levenshtein metric) are library
  functions outside the program; they are the parameters \<open>stem\<close>, \<open>base\<close> and \<open>sim\<close>.
  A failed stemming is \<open>None\<close>. The score is a \<open>float64\<close> that the program only compares
  with \<open>>\<close>; it is modelled as a real number.

  The loop keeps the index and score of the best candidate so far, starting from index
  \<open>0\<close> and score \<open>0.0\<close>; \<open>i\<close> is the index of the head of the remaining candidates.
\<close>

fun closest ::
  "(string \<Rightarrow> string option) \<Rightarrow> (string \<Rightarrow> string) \<Rightarrow> (string \<Rightarrow> string \<Rightarrow> real) \<Rightarrow>
   nat \<Rightarrow> ScummGameMatch list \<Rightarrow> nat \<times> real \<Rightarrow> nat \<times> real" where
  "closest stem base sim i [] st = st"
| "closest stem base sim i (m # ms) (closestMatchIndex, closestMatchDistance) =
     (case stem (Description m) of
        None \<Rightarrow> closest stem base sim (Suc i) ms (closestMatchIndex, closestMatchDistance)
      | Some stemmedGameDescription \<Rightarrow>
          (case stem (base (Directory m)) of
             None \<Rightarrow> closest stem base sim (Suc i) ms (closestMatchIndex, closestMatchDistance)
           | Some stemmedDirectory \<Rightarrow>
               (let levenshteinDistance = sim stemmedGameDescription stemmedDirectory
                in if levenshteinDistance > closestMatchDistance
                   then closest stem base sim (Suc i) ms (i, levenshteinDistance)
                   else closest stem base sim (Suc i) ms (closestMatchIndex, closestMatchDistance))))"

section \<open>The parser\<close>

text \<open>
  The three errors of \<open>parseScummvmOutput\<close>, one for each \<open>fmt.Errorf\<close>:
  \<open>NotFound\<close> is "scummvm could not find any game", \<open>NoTableFound\<close> is "scummvm output
  does not contain a match for regex ..." and \<open>EmptyCandidateSet\<close> is "scummvm output
  slice is empty".
\<close>

datatype error = NotFound | NoTableFound | EmptyCandidateSet

definition parseScummvmOutput ::
  "(string \<Rightarrow> string option) \<Rightarrow> (string \<Rightarrow> string) \<Rightarrow> (string \<Rightarrow> string \<Rightarrow> real) \<Rightarrow>
   string \<Rightarrow> error + string \<times> string" where
  "parseScummvmOutput stem base sim out =
     (if contains out sentinel then Inl NotFound
      else if \<not> headerMatcher out then Inl NoTableFound
      else
        (let slice = scummvmOutputSlice out
         in if length slice = 0 then Inl EmptyCandidateSet
            else if length slice = 1 then Inr (GameID (slice ! 0), Description (slice ! 0))
            else
              (let closestMatchIndex = fst (closest stem base sim 0 slice (0, 0))
               in Inr (GameID (slice ! closestMatchIndex),
                       Description (slice ! closestMatchIndex)))))"

section \<open>Scores of the candidates\<close>


section \<open>The scorer\<close>





section \<open>Well-formed rows\<close>

text \<open>
  A row of three columns: \<open>no_gap\<close> holds for a text without two neighbouring
  white-space characters; a field is a non-empty such text on one line that neither
  starts nor ends with white space; a gap between two fields is a run of two or more
  white-space characters; the path is only required to be non-empty, on one line, and not
  to start with white space.
\<close>

fun no_gap :: "string \<Rightarrow> bool" where
  "no_gap [] = True"
| "no_gap [a] = True"
| "no_gap (a # b # s) = (\<not> (is_space a \<and> is_space b) \<and> no_gap (b # s))"

definition is_field :: "string \<Rightarrow> bool" where
  "is_field f \<longleftrightarrow> f \<noteq> [] \<and> LF \<notin> set f \<and> \<not> is_space (hd f) \<and> \<not> is_space (last f) \<and> no_gap f"

definition is_path :: "string \<Rightarrow> bool" where
  "is_path p \<longleftrightarrow> p \<noteq> [] \<and> LF \<notin> set p \<and> \<not> is_space (hd p)"

definition is_gap :: "string \<Rightarrow> bool" where
  "is_gap s \<longleftrightarrow> 2 \<le> length s \<and> list_all is_space s"

section \<open>Lines and their terminators\<close>

text \<open>
  A text made of lines: \<open>join sep ls\<close> puts \<open>sep\<close> between consecutive lines (a
  text that ends with a terminator has the empty string as its last line). \<open>strip_cr\<close>
  removes every carriage return, and \<open>crlf_ok\<close> holds for a text in which every
  carriage return is followed by a line feed.
\<close>

fun join :: "string \<Rightarrow> string list \<Rightarrow> string" where
  "join sep [] = []"
| "join sep [l] = l"
| "join sep (l # l' # ls) = l @ sep @ join sep (l' # ls)"

definition strip_cr :: "string \<Rightarrow> string" where
  "strip_cr s = filter (\<lambda>c. c \<noteq> CR) s"

fun crlf_ok :: "string \<Rightarrow> bool" where
  "crlf_ok [] = True"
| "crlf_ok (c # cs) = ((if c = CR then cs \<noteq> [] \<and> hd cs = LF else True) \<and> crlf_ok cs)"

section \<open>Notions of the specification\<close>

text \<open>
  Trimming white space at both ends, which the specification applies to the fields of a
  row before it tests them for emptiness. The program has no such step; the definition
  only serves to compare the two.
\<close>

definition spec_trim :: "string \<Rightarrow> string" where
  "spec_trim s = rev (dropWhile is_space (rev (dropWhile is_space s)))"

text \<open>
  The specification's reading of a row, for comparison with the program: the segments of
  a line delimited by runs of two or more white-space characters, of which the
  specification takes the last one as the path.
\<close>

function spec_segments_from :: "string \<Rightarrow> string \<Rightarrow> string list" where
  "spec_segments_from acc [] = [acc]"
| "spec_segments_from acc (c # cs) =
     (if is_space c \<and> cs \<noteq> [] \<and> is_space (hd cs)
      then acc # spec_segments_from [] (dropWhile is_space cs)
      else spec_segments_from (acc @ [c]) cs)"
  by pat_completeness auto
termination
  by (relation "measure (\<lambda>(acc, s). length s)") (auto simp: le_imp_less_Suc length_dropWhile_le)

definition spec_segments :: "string \<Rightarrow> string list" where
  "spec_segments s = spec_segments_from [] s"

section \<open>Sample inputs and library stand-ins\<close>

text \<open>
  Concrete library functions for evaluating the parser: a stemmer that returns its
  argument, a stemmer that always fails, the identity in place of \<open>filepath.Base\<close>,
  and a scorer that is \<open>1\<close> on equal strings and \<open>0\<close> otherwise.
\<close>

definition keep_stem :: "string \<Rightarrow> string option" where
  "keep_stem s = Some s"

definition no_stem :: "string \<Rightarrow> string option" where
  "no_stem s = None"

definition whole_path :: "string \<Rightarrow> string" where
  "whole_path p = p"

definition same_score :: "string \<Rightarrow> string \<Rightarrow> real" where
  "same_score a b = (if a = b then 1 else 0)"

definition sample_head :: string where
  "sample_head = ''GameID  Description  Full Path'' @ [LF] @ ''-- -- --'' @ [LF]"

definition sample_table :: string where
  "sample_table = sample_head @ ''a  b c  d''"

definition sample_two :: string where
  "sample_two = sample_head @ ''a  b  c'' @ [LF] @ ''d  e  e''"



definition sample_blank :: string where
  "sample_blank = sample_head @ ''a  b  c'' @ [LF] @ '' ''"

definition sample_no_rule :: string where
  "sample_no_rule = ''GameID  Description  Full Path'' @ [LF] @ ''a  b  c''"

definition sample_loose :: string where
  "sample_loose = sample_head @ ''a b''"

definition sample_lines :: "string list" where
  "sample_lines = [''GameID  Description  Full Path'', ''-- -- --'', ''a  b c  d'', '''']"

section \<open>Facts about the sample inputs\<close>

lemma sample_table_nosent: "\<not> contains sample_table sentinel"
  by code_simp

lemma sample_table_header: "headerMatcher sample_table"
  by code_simp

lemma sample_table_slice:
  "scummvmOutputSlice sample_table = [\<lparr>GameID = ''a'', Description = ''b c'', Directory = ''d''\<rparr>]"
  by code_simp

lemma sample_two_nosent: "\<not> contains sample_two sentinel"
  by code_simp

lemma sample_two_header: "headerMatcher sample_two"
  by code_simp

lemma sample_two_slice:
  "scummvmOutputSlice sample_two =
     [\<lparr>GameID = ''a'', Description = ''b'', Directory = ''c''\<rparr>,
      \<lparr>GameID = ''d'', Description = ''e'', Directory = ''e''\<rparr>]"
  by code_simp




section \<open>The not-found sentinel\<close>

text \<open>
  C2: an output that contains the sentinel phrase fails with \<open>NotFound\<close>, whatever else
  it contains; the header check and the table search come after this return.
\<close>

theorem sentinel_gives_NotFound:
  "contains out sentinel \<Longrightarrow> parseScummvmOutput stem base sim out = Inl NotFound"
  by (simp add: parseScummvmOutput_def)

text \<open>The sentinel in front of a complete table with one valid row.\<close>

theorem sentinel_gives_NotFound_witness:
  "contains (sentinel @ ''X'' @ [LF] @ sample_table) sentinel \<and>
   headerMatcher (sentinel @ ''X'' @ [LF] @ sample_table) \<and>
   scummvmOutputSlice (sentinel @ ''X'' @ [LF] @ sample_table) =
     [\<lparr>GameID = ''a'', Description = ''b c'', Directory = ''d''\<rparr>] \<and>
   parseScummvmOutput keep_stem whole_path same_score (sentinel @ ''X'' @ [LF] @ sample_table) =
     Inl NotFound"
proof -
  have c: "contains (sentinel @ ''X'' @ [LF] @ sample_table) sentinel"
    by code_simp
  have h: "headerMatcher (sentinel @ ''X'' @ [LF] @ sample_table)"
    by code_simp
  have s: "scummvmOutputSlice (sentinel @ ''X'' @ [LF] @ sample_table) =
             [\<lparr>GameID = ''a'', Description = ''b c'', Directory = ''d''\<rparr>]"
    by code_simp
  from c h s sentinel_gives_NotFound [OF c] show ?thesis
    by blast
qed

section \<open>The table search\<close>

lemma table_rows_after_rule:
  "\<forall>l \<in> set pre. \<not> lineMatcher l \<Longrightarrow> lineMatcher r \<Longrightarrow>
   table_rows (pre @ r # post) = rows post"
  by (induction pre) simp_all

lemma table_rows_no_rule: "\<forall>l \<in> set ls. \<not> lineMatcher l \<Longrightarrow> table_rows ls = []"
  by (induction ls) simp_all

text \<open>
  C5, as the program has it: for an output without the sentinel, a missing header gives
  \<open>NoTableFound\<close>; a header without any rule line leaves the candidate list empty and
  gives \<open>EmptyCandidateSet\<close>, the error of a table without valid rows.
\<close>

theorem missing_table_errors:
  assumes "\<not> contains out sentinel"
  shows "(\<not> headerMatcher out \<longrightarrow>
            parseScummvmOutput stem base sim out = Inl NoTableFound) \<and>
         (headerMatcher out \<and> (\<forall>l \<in> set (split out (eol_of out)). \<not> lineMatcher l) \<longrightarrow>
            parseScummvmOutput stem base sim out = Inl EmptyCandidateSet)"
  using assms by (simp add: parseScummvmOutput_def scummvmOutputSlice_def table_rows_no_rule)

theorem missing_table_errors_witness:
  "parseScummvmOutput keep_stem whole_path same_score ''a  b  c'' = Inl NoTableFound \<and>
   parseScummvmOutput keep_stem whole_path same_score sample_no_rule = Inl EmptyCandidateSet"
proof -
  have n1: "\<not> contains ''a  b  c'' sentinel" by code_simp
  have h1: "\<not> headerMatcher ''a  b  c''" by code_simp
  have n2: "\<not> contains sample_no_rule sentinel" by code_simp
  have h2: "headerMatcher sample_no_rule" by code_simp
  have r2: "\<forall>l \<in> set (split sample_no_rule (eol_of sample_no_rule)). \<not> lineMatcher l"
    by code_simp
  from missing_table_errors [OF n1, of keep_stem whole_path same_score] h1
    missing_table_errors [OF n2, of keep_stem whole_path same_score] h2 r2
  show ?thesis by blast
qed

text \<open>
  The header followed by a row, with no rule line between them: no line is a rule line,
  and the error is \<open>EmptyCandidateSet\<close>, not \<open>NoTableFound\<close>.
\<close>

theorem no_rule_line_counterexample:
  "\<not> contains sample_no_rule sentinel \<and>
   filter lineMatcher (split sample_no_rule (eol_of sample_no_rule)) = [] \<and>
   parseScummvmOutput keep_stem whole_path same_score sample_no_rule = Inl EmptyCandidateSet \<and>
   parseScummvmOutput keep_stem whole_path same_score sample_no_rule \<noteq> Inl NoTableFound"
  by code_simp

section \<open>A single candidate\<close>

text \<open>
  C3: when the output passes the two checks and the table yields exactly one candidate,
  the result is that candidate's \<open>GameID\<close> and \<open>Description\<close> as extracted. The
  stemmer, the path function and the scorer are arbitrary in the statement: the result
  does not depend on them, since this return comes before the scoring loop.
\<close>

theorem single_candidate_passthrough:
  assumes "\<not> contains out sentinel" and "headerMatcher out"
    and "scummvmOutputSlice out = [m]"
  shows "parseScummvmOutput stem base sim out = Inr (GameID m, Description m)"
  using assms by (simp add: parseScummvmOutput_def)

theorem single_candidate_passthrough_witness:
  "parseScummvmOutput no_stem whole_path same_score sample_table = Inr (''a'', ''b c'')"
  using single_candidate_passthrough [OF sample_table_nosent sample_table_header sample_table_slice]
  by simp

section \<open>Fields of the candidates\<close>

lemma rows_fields_nonempty:
  "m \<in> set (rows ls) \<Longrightarrow> GameID m \<noteq> [] \<and> Description m \<noteq> [] \<and> Directory m \<noteq> []"
  by (induction ls) (auto simp: Let_def split: if_splits)

lemma table_rows_fields_nonempty:
  "m \<in> set (table_rows ls) \<Longrightarrow> GameID m \<noteq> [] \<and> Description m \<noteq> [] \<and> Directory m \<noteq> []"
  by (induction ls) (auto dest: rows_fields_nonempty split: if_splits)

text \<open>
  C9, as the program has it: every candidate has a non-empty \<open>GameID\<close>, \<open>Description\<close>
  and \<open>Directory\<close>, the fields being compared with the empty string as they were
  extracted. A row with an empty field is therefore never among the candidates.
\<close>

theorem candidates_have_nonempty_fields:
  "\<forall>m \<in> set (scummvmOutputSlice out).
     GameID m \<noteq> [] \<and> Description m \<noteq> [] \<and> Directory m \<noteq> []"
  unfolding scummvmOutputSlice_def by (blast dest: table_rows_fields_nonempty)

theorem candidates_have_nonempty_fields_witness:
  "scummvmOutputSlice sample_blank =
     [\<lparr>GameID = ''a'', Description = ''b'', Directory = ''c''\<rparr>,
      \<lparr>GameID = '' '', Description = '' '', Directory = '' ''\<rparr>] \<and>
   GameID (scummvmOutputSlice sample_blank ! 1) \<noteq> []"
proof -
  have s: "scummvmOutputSlice sample_blank =
     [\<lparr>GameID = ''a'', Description = ''b'', Directory = ''c''\<rparr>,
      \<lparr>GameID = '' '', Description = '' '', Directory = '' ''\<rparr>]"
    by code_simp
  have "scummvmOutputSlice sample_blank ! 1 \<in> set (scummvmOutputSlice sample_blank)"
    by (simp add: s)
  with candidates_have_nonempty_fields [of sample_blank] s show ?thesis
    by blast
qed

text \<open>
  The fields are not trimmed: a last line that holds one space does not match the row
  pattern, is not empty, and becomes a candidate whose three fields are that space, empty
  once trimmed.
\<close>

theorem trimmed_field_empty_counterexample:
  "scummvmOutputSlice sample_blank =
     [\<lparr>GameID = ''a'', Description = ''b'', Directory = ''c''\<rparr>,
      \<lparr>GameID = '' '', Description = '' '', Directory = '' ''\<rparr>] \<and>
   spec_trim (GameID (scummvmOutputSlice sample_blank ! 1)) = []"
  by code_simp

section \<open>Lines that do not match the row pattern\<close>

lemma parse_row_unmatched:
  "matcher l = None \<Longrightarrow> parse_row l = \<lparr>GameID = l, Description = l, Directory = l\<rparr>"
  by (simp add: parse_row_def replaceAllString_def)

lemma rows_unmatched:
  "l \<in> set post \<Longrightarrow> l \<noteq> [] \<Longrightarrow> matcher l = None \<Longrightarrow>
   \<lparr>GameID = l, Description = l, Directory = l\<rparr> \<in> set (rows post)"
  by (induction post) (auto simp: Let_def parse_row_unmatched)

text \<open>
  C10: \<open>r\<close> is the first rule line of the output and \<open>l\<close> a line after it. When \<open>l\<close>
  is not empty and the row pattern does not match it, the three replacements return
  \<open>l\<close> itself, and the candidate with \<open>l\<close> in all three fields is appended.
\<close>

theorem unmatched_line_is_candidate:
  assumes "split out (eol_of out) = pre @ r # post"
    and "\<forall>l \<in> set pre. \<not> lineMatcher l" and "lineMatcher r"
    and "l \<in> set post" and "l \<noteq> []" and "matcher l = None"
  shows "\<lparr>GameID = l, Description = l, Directory = l\<rparr> \<in> set (scummvmOutputSlice out)"
  using assms by (simp add: scummvmOutputSlice_def table_rows_after_rule rows_unmatched)

theorem unmatched_line_is_candidate_witness:
  "matcher ''a b'' = None \<and>
   \<lparr>GameID = ''a b'', Description = ''a b'', Directory = ''a b''\<rparr>
     \<in> set (scummvmOutputSlice sample_loose)"
proof -
  have sp: "split sample_loose (eol_of sample_loose) =
      [''GameID  Description  Full Path''] @ ''-- -- --'' # [''a b'']"
    by code_simp
  have pre: "\<forall>l \<in> set [''GameID  Description  Full Path'']. \<not> lineMatcher l"
    by code_simp
  have r: "lineMatcher ''-- -- --''"
    by code_simp
  have m: "matcher ''a b'' = None"
    by code_simp
  from unmatched_line_is_candidate [OF sp pre r _ _ m] m show ?thesis
    by simp
qed

section \<open>The row pattern on well-formed rows\<close>

lemma greedy_spaces_whole_run:
  "list_all is_space ws \<Longrightarrow> rest = [] \<or> \<not> is_space (hd rest) \<Longrightarrow> 2 \<le> n + length ws \<Longrightarrow>
   k rest = Some r \<Longrightarrow> greedy_spaces k n (ws @ rest) = Some r"
proof (induction ws arbitrary: n)
  case Nil
  then show ?case by (cases rest) auto
next
  case (Cons w ws)
  then show ?case by simp
qed

lemma greedy_spaces_no_run:
  "no_gap f \<Longrightarrow> f \<noteq> [] \<Longrightarrow> \<not> is_space (last f) \<Longrightarrow> greedy_spaces k 0 (f @ rest) = None"
proof (cases f rule: no_gap.cases)
  case 1
  then show "f \<noteq> [] \<Longrightarrow> ?thesis" by simp
next
  case (2 a)
  then show "\<not> is_space (last f) \<Longrightarrow> ?thesis" by (cases rest) simp_all
next
  case (3 a b s)
  then show "no_gap f \<Longrightarrow> ?thesis" by (auto split: option.splits)
qed

lemma no_gap_drop: "no_gap f \<Longrightarrow> no_gap (drop i f)"
proof (induction f arbitrary: i rule: no_gap.induct)
  case 1
  then show ?case by simp
next
  case (2 a)
  then show ?case by (cases i) simp_all
next
  case (3 a b s)
  then show ?case by (cases i) simp_all
qed

lemma lazy_dots_first:
  "f \<noteq> [] \<Longrightarrow> LF \<notin> set f \<Longrightarrow> k rest = Some r \<Longrightarrow>
   (\<forall>i. 0 < i \<and> i < length f \<longrightarrow> k (drop i f @ rest) = None) \<Longrightarrow>
   lazy_dots k acc (f @ rest) = Some (acc @ f, r)"
proof (induction f arbitrary: acc)
  case Nil
  then show ?case by simp
next
  case (Cons c f)
  show ?case
  proof (cases "f = []")
    case True
    with Cons.prems show ?thesis by simp
  next
    case False
    from Cons.prems(4) [rule_format, of 1] False have here: "k (f @ rest) = None"
      by simp
    have later: "\<forall>i. 0 < i \<and> i < length f \<longrightarrow> k (drop i f @ rest) = None"
    proof (intro allI impI)
      fix i assume "0 < i \<and> i < length f"
      with Cons.prems(4) [rule_format, of "Suc i"] show "k (drop i f @ rest) = None"
        by simp
    qed
    from Cons.prems(2) have "LF \<notin> set f" "c \<noteq> LF"
      by auto
    with Cons.IH [OF False _ Cons.prems(3) later, of "acc @ [c]"] here show ?thesis
      by simp
  qed
qed

lemma lazy_dots_field:
  assumes "f \<noteq> []" and "LF \<notin> set f" and "\<not> is_space (last f)" and "no_gap f"
    and "greedy_spaces k 0 rest = Some r"
  shows "lazy_dots (greedy_spaces k 0) acc (f @ rest) = Some (acc @ f, r)"
proof (rule lazy_dots_first [of f "greedy_spaces k 0" rest r acc, OF assms(1,2,5)], intro allI impI)
  fix i assume i: "0 < i \<and> i < length f"
  then have "drop i f \<noteq> []" "last (drop i f) = last f"
    by simp_all
  with assms(3,4) show "greedy_spaces k 0 (drop i f @ rest) = None"
    by (intro greedy_spaces_no_run) (simp_all add: no_gap_drop)
qed

lemma lazy_dots_at_end:
  "f \<noteq> [] \<Longrightarrow> LF \<notin> set f \<Longrightarrow> lazy_dots at_end acc f = Some (acc @ f, ())"
  using lazy_dots_first [of f at_end "[]" "()" acc] by (simp add: at_end_def)

lemma matcher_three_fields:
  assumes "gid \<noteq> []" "LF \<notin> set gid" "\<not> is_space (last gid)" "no_gap gid"
    and "is_gap s1" and "is_field desc" and "is_gap s2"
    and "path \<noteq> []" "LF \<notin> set path" "\<not> is_space (hd path)"
  shows "matcher (gid @ s1 @ desc @ s2 @ path) = Some (gid, desc, path)"
proof -
  let ?k3 = "lazy_dots at_end []"
  let ?k2 = "lazy_dots (greedy_spaces ?k3 0) []"
  have g3: "?k3 path = Some (path, ())"
    using lazy_dots_at_end [OF assms(8,9), of "[]"] by simp
  have s2: "greedy_spaces ?k3 0 (s2 @ path) = Some (path, ())"
    using assms(7,8,10) g3 by (intro greedy_spaces_whole_run) (simp_all add: is_gap_def)
  have g2: "?k2 (desc @ s2 @ path) = Some (desc, path, ())"
    using lazy_dots_field [of desc ?k3 "s2 @ path" "(path, ())" "[]"] assms(6) s2
    by (simp add: is_field_def)
  have s1: "greedy_spaces ?k2 0 (s1 @ desc @ s2 @ path) = Some (desc, path, ())"
    using assms(5,6) g2 by (intro greedy_spaces_whole_run) (simp_all add: is_gap_def is_field_def)
  have g1: "lazy_dots (greedy_spaces ?k2 0) [] (gid @ s1 @ desc @ s2 @ path) = Some (gid, desc, path, ())"
    using lazy_dots_field [of gid ?k2 "s1 @ desc @ s2 @ path" "(desc, path, ())" "[]"] assms(1-4) s1
    by simp
  then show ?thesis
    by (simp add: matcher_def)
qed

text \<open>
  C4, as the program has it: for a row made of an identifier, a gap, a description, a
  second gap and a path, the three fields extracted are the identifier, the description
  (single white-space characters inside it do not end it) and the path, which is all of
  the line after the second gap, further gaps included.
\<close>

theorem row_three_fields:
  assumes "is_field gid" and "is_gap s1" and "is_field desc" and "is_gap s2" and "is_path path"
  shows "parse_row (gid @ s1 @ desc @ s2 @ path) =
           \<lparr>GameID = gid, Description = desc, Directory = path\<rparr>"
proof -
  have "matcher (gid @ s1 @ desc @ s2 @ path) = Some (gid, desc, path)"
    using assms by (intro matcher_three_fields) (simp_all add: is_field_def is_path_def)
  then show ?thesis
    by (simp add: parse_row_def replaceAllString_def)
qed

theorem row_three_fields_witness:
  "parse_row ''scumm:loom    Loom (VGA/DOS/English)  /g/Loom (CD DOS VGA)/'' =
     \<lparr>GameID = ''scumm:loom'', Description = ''Loom (VGA/DOS/English)'',
      Directory = ''/g/Loom (CD DOS VGA)/''\<rparr> \<and>
   parse_row ''sq1  Space Quest  /g/Space  Quest'' =
     \<lparr>GameID = ''sq1'', Description = ''Space Quest'', Directory = ''/g/Space  Quest''\<rparr>"
proof -
  have 1: "is_field ''scumm:loom''" "is_gap ''    ''" "is_field ''Loom (VGA/DOS/English)''"
    "is_gap ''  ''" "is_path ''/g/Loom (CD DOS VGA)/''"
    by (simp_all add: is_field_def is_gap_def is_path_def is_space_def)
  have 2: "is_field ''sq1''" "is_field ''Space Quest''" "is_path ''/g/Space  Quest''"
    by (simp_all add: is_field_def is_gap_def is_path_def is_space_def)
  from row_three_fields [OF 1] row_three_fields [OF 2(1) 1(4) 2(2) 1(4) 2(3)]
  show ?thesis by simp
qed

text \<open>
  A directory name with two spaces in it: the path extracted is the whole rest of the
  line, not the last of the four segments.
\<close>

theorem path_not_last_segment_counterexample:
  "parse_row ''sq1  Space Quest  /g/Space  Quest'' =
     \<lparr>GameID = ''sq1'', Description = ''Space Quest'', Directory = ''/g/Space  Quest''\<rparr> \<and>
   spec_segments ''sq1  Space Quest  /g/Space  Quest'' = [''sq1'', ''Space Quest'', ''/g/Space'', ''Quest''] \<and>
   Directory (parse_row ''sq1  Space Quest  /g/Space  Quest'') \<noteq>
     last (spec_segments ''sq1  Space Quest  /g/Space  Quest'')"
  by code_simp

section \<open>The scoring loop\<close>

lemma closest_all_skipped:
  "\<forall>m \<in> set ms. stem (Description m) = None \<or> stem (base (Directory m)) = None \<Longrightarrow>
   closest stem base sim i ms st = st"
proof (induction ms arbitrary: i)
  case Nil
  then show ?case by simp
next
  case (Cons m ms)
  obtain bi bs where st: "st = (bi, bs)" by (cases st)
  from Cons.prems
  have rest: "\<forall>m \<in> set ms. stem (Description m) = None \<or> stem (base (Directory m)) = None"
    and here: "stem (Description m) = None \<or> stem (base (Directory m)) = None"
    by simp_all
  from here show ?case
    using Cons.IH [OF rest] by (auto simp: st split: option.splits)
qed

text \<open>
  C6: with two or more candidates, when stemming fails for every candidate (of the
  description or of the path's last element), every candidate is skipped, the best index
  stays at its initial value and the candidate at index \<open>0\<close> is returned.
\<close>

theorem all_stemming_fails_first_wins:
  assumes "\<not> contains out sentinel" and "headerMatcher out"
    and "2 \<le> length (scummvmOutputSlice out)"
    and "\<forall>m \<in> set (scummvmOutputSlice out).
           stem (Description m) = None \<or> stem (base (Directory m)) = None"
  shows "parseScummvmOutput stem base sim out =
           Inr (GameID (scummvmOutputSlice out ! 0), Description (scummvmOutputSlice out ! 0))"
proof -
  have scan: "closest stem base sim 0 (scummvmOutputSlice out) (0, 0) = (0, 0)"
    by (rule closest_all_skipped [OF assms(4)])
  from assms(3)
  have len: "length (scummvmOutputSlice out) \<noteq> 0" "length (scummvmOutputSlice out) \<noteq> 1"
    by auto
  show ?thesis
    unfolding parseScummvmOutput_def Let_def using assms(1,2) len by (simp add: scan)
qed

text \<open>
  Two candidates and a stemmer that always fails: the first row is returned, although
  the second row is the one whose description equals its path.
\<close>

theorem all_stemming_fails_first_wins_witness:
  "parseScummvmOutput no_stem whole_path same_score sample_two = Inr (''a'', ''b'') \<and>
   parseScummvmOutput keep_stem whole_path same_score sample_two = Inr (''d'', ''e'')"
proof -
  have skipped: "\<forall>m \<in> set (scummvmOutputSlice sample_two).
      no_stem (Description m) = None \<or> no_stem (whole_path (Directory m)) = None"
    by (simp add: no_stem_def)
  have two: "2 \<le> length (scummvmOutputSlice sample_two)"
    by (simp add: sample_two_slice)
  have other: "parseScummvmOutput keep_stem whole_path same_score sample_two = Inr (''d'', ''e'')"
    using sample_two_nosent sample_two_header
    by (simp add: parseScummvmOutput_def sample_two_slice keep_stem_def whole_path_def same_score_def)
  from all_stemming_fails_first_wins [OF sample_two_nosent sample_two_header two skipped, of same_score]
    other
  show ?thesis
    by (simp add: sample_two_slice)
qed




section \<open>The scorer and its range\<close>






section \<open>The scoring loop with the scorer\<close>




section \<open>Line terminators\<close>

lemma splitOn_no_sep:
  "s0 \<notin> set l \<Longrightarrow> splitOn (s0 # sr) acc l = [acc @ l]"
  by (induction l arbitrary: acc) simp_all

lemma splitOn_at_sep:
  "s0 \<notin> set l \<Longrightarrow>
   splitOn (s0 # sr) acc (l @ (s0 # sr) @ rest) = (acc @ l) # splitOn (s0 # sr) [] rest"
  by (induction l arbitrary: acc) simp_all

lemma split_join:
  "ls \<noteq> [] \<Longrightarrow> \<forall>l \<in> set ls. s0 \<notin> set l \<Longrightarrow> split (join (s0 # sr) ls) (s0 # sr) = ls"
proof (induction "s0 # sr" ls rule: join.induct)
  case 1
  then show ?case by simp
next
  case (2 l)
  then show ?case by (simp add: split_def splitOn_no_sep)
next
  case (3 l l' ls)
  then show ?case
    using splitOn_at_sep [of s0 l sr "[]" "join (s0 # sr) (l' # ls)"]
    by (simp add: split_def)
qed

lemma contains_set: "contains s sub \<Longrightarrow> set sub \<subseteq> set s"
proof (induction s)
  case Nil
  then show ?case by simp
next
  case (Cons c cs)
  from Cons.prems have "prefix sub (c # cs) \<or> contains cs sub"
    by simp
  then show ?case
  proof
    assume "prefix sub (c # cs)"
    then show ?thesis by (rule set_mono_prefix)
  next
    assume "contains cs sub"
    with Cons.IH show ?thesis by auto
  qed
qed

lemma contains_append_right: "contains s sub \<Longrightarrow> contains (p @ s) sub"
  by (induction p) simp_all

lemma contains_prefix: "prefix sub s \<Longrightarrow> contains s sub"
  by (cases s) simp_all

lemma contains_middle: "contains (p @ sub @ q) sub"
  by (rule contains_append_right) (simp add: contains_prefix)

lemma contains_join_sep: "2 \<le> length ls \<Longrightarrow> contains (join sep ls) sep"
proof -
  assume "2 \<le> length ls"
  then obtain l l' ls' where "ls = l # l' # ls'"
    by (cases ls; cases "tl ls") auto
  then show ?thesis
    by (simp add: contains_middle)
qed

lemma set_join: "set (join sep ls) \<subseteq> set sep \<union> \<Union> (set ` set ls)"
  by (induction sep ls rule: join.induct) auto

lemma strip_cr_simps [simp]:
  "strip_cr [] = []"
  "strip_cr (c # cs) = (if c = CR then strip_cr cs else c # strip_cr cs)"
  "strip_cr (a @ b) = strip_cr a @ strip_cr b"
  by (simp_all add: strip_cr_def)

lemma strip_cr_id: "CR \<notin> set s \<Longrightarrow> strip_cr s = s"
  by (induction s) auto

lemma crlf_ok_append_right: "crlf_ok (a @ b) \<Longrightarrow> crlf_ok b"
  by (induction a) simp_all

lemma crlf_ok_line: "CR \<notin> set l \<Longrightarrow> crlf_ok (l @ rest) = crlf_ok rest"
  by (induction l) auto

lemma crlf_ok_no_CR: "CR \<notin> set l \<Longrightarrow> crlf_ok l"
  using crlf_ok_line [of l "[]"] by simp

lemma crlf_ok_join: "\<forall>l \<in> set ls. CR \<notin> set l \<Longrightarrow> crlf_ok (join eol_crlf ls)"
  by (induction eol_crlf ls rule: join.induct) (simp_all add: crlf_ok_line crlf_ok_no_CR)

lemma strip_cr_join: "\<forall>l \<in> set ls. CR \<notin> set l \<Longrightarrow> strip_cr (join eol_crlf ls) = join eol_lf ls"
  by (induction eol_crlf ls rule: join.induct) (simp_all add: strip_cr_id)

lemma prefix_strip_cr:
  "crlf_ok s \<Longrightarrow> CR \<notin> set lit \<Longrightarrow> LF \<notin> set lit \<Longrightarrow> prefix lit (strip_cr s) = prefix lit s"
proof (induction lit arbitrary: s)
  case Nil
  then show ?case by simp
next
  case (Cons x lit)
  show ?case
  proof (cases s)
    case Nil
    then show ?thesis by simp
  next
    case (Cons c cs)
    show ?thesis
    proof (cases "c = CR")
      case True
      with Cons Cons.prems(1) obtain cs' where cs: "cs = LF # cs'"
        by (cases cs) auto
      with True Cons Cons.prems(2,3) show ?thesis
        by auto
    next
      case False
      from Cons Cons.prems(1) have "crlf_ok cs" by simp
      with Cons False Cons.IH [of cs] Cons.prems(2,3) show ?thesis
        by simp
    qed
  qed
qed

lemma contains_strip_cr:
  "crlf_ok s \<Longrightarrow> sub \<noteq> [] \<Longrightarrow> CR \<notin> set sub \<Longrightarrow> LF \<notin> set sub \<Longrightarrow>
   contains (strip_cr s) sub = contains s sub"
proof (induction s)
  case Nil
  then show ?case by simp
next
  case (Cons c cs)
  from Cons.prems(1) have ok: "crlf_ok cs" by simp
  show ?case
  proof (cases "c = CR")
    case True
    with Cons.prems(2,3) have "\<not> prefix sub (c # cs)"
      by (cases sub) auto
    with True Cons.IH [OF ok Cons.prems(2,3,4)] show ?thesis
      by simp
  next
    case False
    have "prefix sub (strip_cr (c # cs)) = prefix sub (c # cs)"
      by (rule prefix_strip_cr [OF Cons.prems(1,3,4)])
    with False Cons.IH [OF ok Cons.prems(2,3,4)] show ?thesis
      by simp
  qed
qed

lemma dropWhile_space_strip_cr:
  "dropWhile is_space (strip_cr s) = strip_cr (dropWhile is_space s)"
  by (induction s) (auto simp: is_space_def)

lemma crlf_ok_dropWhile: "crlf_ok s \<Longrightarrow> crlf_ok (dropWhile P s)"
  by (induction s) auto

lemma after_lit_strip_cr:
  assumes "crlf_ok s" and "CR \<notin> set lit" and "LF \<notin> set lit"
  shows "after_lit lit (strip_cr s) = map_option strip_cr (after_lit lit s)"
proof (cases "prefix lit s")
  case True
  then obtain r where s: "s = lit @ r"
    by (auto simp: prefix_def)
  with assms(2) show ?thesis
    by (simp add: after_lit_def strip_cr_id)
next
  case False
  with prefix_strip_cr [OF assms] show ?thesis
    by (simp add: after_lit_def)
qed

lemma after_lit_crlf_ok: "crlf_ok s \<Longrightarrow> after_lit lit s = Some r \<Longrightarrow> crlf_ok r"
  by (auto simp: after_lit_def prefix_def dest: crlf_ok_append_right split: if_splits)

lemma after_spaces_strip_cr:
  assumes "crlf_ok s"
  shows "after_spaces (strip_cr s) = map_option strip_cr (after_spaces s)"
proof (cases s)
  case Nil
  then show ?thesis by (simp add: after_spaces_def)
next
  case (Cons c cs)
  show ?thesis
  proof (cases "c = CR")
    case True
    with Cons assms obtain cs' where cs: "cs = LF # cs'"
      by (cases cs) auto
    with True Cons show ?thesis
      by (simp add: after_spaces_def dropWhile_space_strip_cr) (simp add: is_space_def)
  next
    case False
    with Cons show ?thesis
      by (simp add: after_spaces_def dropWhile_space_strip_cr)
  qed
qed

lemma after_spaces_crlf_ok: "crlf_ok s \<Longrightarrow> after_spaces s = Some r \<Longrightarrow> crlf_ok r"
  by (auto simp: after_spaces_def crlf_ok_dropWhile split: list.splits if_splits)

lemma header_here_strip_cr:
  assumes "crlf_ok s"
  shows "header_here (strip_cr s) = header_here s"
proof -
  have lit: "after_lit lit (strip_cr t) = map_option strip_cr (after_lit lit t)"
    if "crlf_ok t" "lit = ''GameID'' \<or> lit = ''Description''" for lit t
    using that by (intro after_lit_strip_cr) auto
  show ?thesis
  proof (cases "after_lit ''GameID'' s")
    case None
    with lit [OF assms, of "''GameID''"] show ?thesis
      by (simp add: header_here_def)
  next
    case (Some r1)
    note r1 = this
    have ok1: "crlf_ok r1" by (rule after_lit_crlf_ok [OF assms r1])
    show ?thesis
    proof (cases "after_spaces r1")
      case None
      with r1 lit [OF assms, of "''GameID''"] after_spaces_strip_cr [OF ok1] show ?thesis
        by (simp add: header_here_def)
    next
      case (Some r2)
      note r2 = this
      have ok2: "crlf_ok r2" by (rule after_spaces_crlf_ok [OF ok1 r2])
      show ?thesis
      proof (cases "after_lit ''Description'' r2")
        case None
        with r1 r2 lit [OF assms, of "''GameID''"] after_spaces_strip_cr [OF ok1]
          lit [OF ok2, of "''Description''"] show ?thesis
          by (simp add: header_here_def)
      next
        case (Some r3)
        note r3 = this
        have ok3: "crlf_ok r3" by (rule after_lit_crlf_ok [OF ok2 r3])
        show ?thesis
        proof (cases "after_spaces r3")
          case None
          with r1 r2 r3 lit [OF assms, of "''GameID''"] after_spaces_strip_cr [OF ok1]
            lit [OF ok2, of "''Description''"] after_spaces_strip_cr [OF ok3] show ?thesis
            by (simp add: header_here_def)
        next
          case (Some r4)
          have ok4: "crlf_ok r4" by (rule after_spaces_crlf_ok [OF ok3 Some])
          have "prefix ''Full Path'' (strip_cr r4) = prefix ''Full Path'' r4"
            by (rule prefix_strip_cr [OF ok4]) simp_all
          with r1 r2 r3 Some lit [OF assms, of "''GameID''"] after_spaces_strip_cr [OF ok1]
            lit [OF ok2, of "''Description''"] after_spaces_strip_cr [OF ok3] show ?thesis
            by (simp add: header_here_def)
        qed
      qed
    qed
  qed
qed

lemma header_here_CR: "\<not> header_here (CR # cs)"
  by (simp add: header_here_def after_lit_def)

lemma headerMatcher_strip_cr: "crlf_ok s \<Longrightarrow> headerMatcher (strip_cr s) = headerMatcher s"
proof (induction s)
  case Nil
  then show ?case by simp
next
  case (Cons c cs)
  from Cons.prems have ok: "crlf_ok cs" by simp
  show ?case
  proof (cases "c = CR")
    case True
    with Cons.IH [OF ok] show ?thesis
      by (simp add: header_here_CR)
  next
    case False
    have "header_here (strip_cr (c # cs)) = header_here (c # cs)"
      by (rule header_here_strip_cr [OF Cons.prems])
    with False Cons.IH [OF ok] show ?thesis
      by simp
  qed
qed

lemma lines_crlf_lf:
  assumes "\<forall>l \<in> set ls. CR \<notin> set l \<and> LF \<notin> set l"
  shows "split (join eol_crlf ls) (eol_of (join eol_crlf ls)) =
         split (join eol_lf ls) (eol_of (join eol_lf ls))"
proof (cases "2 \<le> length ls")
  case True
  then have ne: "ls \<noteq> []" by auto
  have "CR \<notin> set (join eol_lf ls)"
    using set_join [of eol_lf ls] assms by auto
  then have "\<not> contains (join eol_lf ls) eol_crlf"
    by (auto dest: contains_set)
  then have lf: "eol_of (join eol_lf ls) = eol_lf"
    by (simp add: eol_of_def)
  have crlf: "eol_of (join eol_crlf ls) = eol_crlf"
    using contains_join_sep [OF True, of eol_crlf] by (simp add: eol_of_def)
  have "split (join eol_crlf ls) eol_crlf = ls"
    using assms by (intro split_join [OF ne]) simp
  moreover have "split (join eol_lf ls) eol_lf = ls"
    using assms by (intro split_join [OF ne]) simp
  ultimately show ?thesis
    by (simp add: lf crlf)
next
  case False
  then have "ls = [] \<or> (\<exists>l. ls = [l])"
    by (cases ls; cases "tl ls") auto
  then have "join eol_crlf ls = join eol_lf ls"
    by auto
  then show ?thesis
    by simp
qed

text \<open>
  C7: for lines that hold neither a carriage return nor a line feed, the text with the
  lines joined by \<open>"\r\n"\<close> and the text with the lines joined by \<open>"\n"\<close> give the
  same candidate sequence and the same result.
\<close>

theorem crlf_lf_agnostic:
  assumes "\<forall>l \<in> set ls. CR \<notin> set l \<and> LF \<notin> set l"
  shows "scummvmOutputSlice (join eol_crlf ls) = scummvmOutputSlice (join eol_lf ls) \<and>
         parseScummvmOutput stem base sim (join eol_crlf ls) =
           parseScummvmOutput stem base sim (join eol_lf ls)"
proof -
  from assms have no_cr: "\<forall>l \<in> set ls. CR \<notin> set l"
    by simp
  have ok: "crlf_ok (join eol_crlf ls)"
    by (rule crlf_ok_join [OF no_cr])
  have st: "strip_cr (join eol_crlf ls) = join eol_lf ls"
    by (rule strip_cr_join [OF no_cr])
  have sent: "contains (join eol_lf ls) sentinel = contains (join eol_crlf ls) sentinel"
    using contains_strip_cr [OF ok, of sentinel] by (simp add: st sentinel_def)
  have head: "headerMatcher (join eol_lf ls) = headerMatcher (join eol_crlf ls)"
    using headerMatcher_strip_cr [OF ok] by (simp add: st)
  have slice: "scummvmOutputSlice (join eol_crlf ls) = scummvmOutputSlice (join eol_lf ls)"
    by (simp only: scummvmOutputSlice_def lines_crlf_lf [OF assms])
  show ?thesis
    by (simp only: parseScummvmOutput_def sent head slice)
qed

theorem crlf_lf_agnostic_witness:
  "join eol_crlf sample_lines \<noteq> join eol_lf sample_lines \<and>
   scummvmOutputSlice (join eol_crlf sample_lines) =
     [\<lparr>GameID = ''a'', Description = ''b c'', Directory = ''d''\<rparr>] \<and>
   parseScummvmOutput keep_stem whole_path same_score (join eol_crlf sample_lines) = Inr (''a'', ''b c'') \<and>
   parseScummvmOutput keep_stem whole_path same_score (join eol_lf sample_lines) = Inr (''a'', ''b c'')"
proof -
  have lines: "\<forall>l \<in> set sample_lines. CR \<notin> set l \<and> LF \<notin> set l"
    by (simp add: sample_lines_def)
  have diff: "join eol_crlf sample_lines \<noteq> join eol_lf sample_lines"
    by (simp add: sample_lines_def)
  have lf: "scummvmOutputSlice (join eol_lf sample_lines) =
      [\<lparr>GameID = ''a'', Description = ''b c'', Directory = ''d''\<rparr>]"
    by code_simp
  have res: "parseScummvmOutput keep_stem whole_path same_score (join eol_lf sample_lines) = Inr (''a'', ''b c'')"
    by code_simp
  from crlf_lf_agnostic [OF lines, of keep_stem whole_path same_score] diff lf res show ?thesis
    by simp
qed

end
